theory Spec2Isabelle
  imports Complex_Main
begin

section \<open>Data model (src/types.ts)\<close>

text \<open>
  The program computes with JavaScript numbers, IEEE doubles. Here a number is a real:
  \<open>Math.cos\<close>, \<open>Math.sin\<close>, \<open>Math.tan\<close>, \<open>Math.sinh\<close>, \<open>Math.cosh\<close>, \<open>Math.asinh\<close>,
  \<open>Math.acosh\<close>, \<open>Math.sqrt\<close> and \<open>Math.pow\<close> are the functions of real analysis and
  \<open>+\<close>, \<open>*\<close>, \<open>/\<close> are exact; the overflow of \<open>Math.pow\<close> in \<open>chebyshevPoles\<close> is
  written out. Rounding is not modelled, so the values of poles and coefficients are
  those of exact arithmetic, and only properties that rounding cannot change are stated
  of the design pipeline: how many poles, zeros and sections there are, which poles
  share a section, the zeros, the frequency grid, and the sign of the prototype poles.
  Loop counters and array lengths are natural numbers; the filter order is an integer.
\<close>

datatype FilterFamily = butterworth | chebyshev | bessel

datatype FilterType = lowpass | highpass

record FilterParams =
  family :: FilterFamily
  type :: FilterType
  order :: int
  cutoffFrequency :: real
  rippleDb :: real

record Complex =
  re :: real
  im :: real

record SOSSection =
  b :: "real \<times> real \<times> real"
  a :: "real \<times> real \<times> real"

record FilterDesignResult =
  poles :: "Complex list"
  zeros :: "Complex list"
  sos :: "SOSSection list"
  frequencies :: "real list"
  magnitudeDb :: "real list"
  phase :: "real list"

section \<open>Analog prototypes (src/audio/analogPrototypes.ts)\<close>

text \<open>The loop \<open>for (k = 0; k < order; k++)\<close> pushes one pole for each \<open>k\<close> in
  \<open>[0..<nat order]\<close>; for \<open>order \<le> 0\<close> it does not run.\<close>

definition butterworthPoles :: "int \<Rightarrow> Complex list" where
  "butterworthPoles ord =
     map (\<lambda>k. let angle = (pi * (2 * real k + real_of_int ord + 1)) / (2 * real_of_int ord)
               in \<lparr>re = cos angle, im = sin angle\<rparr>)
         [0..<nat ord]"

text \<open>\<open>Number.MAX_VALUE\<close>, the largest finite double.\<close>

definition MAX_VALUE :: real where
  "MAX_VALUE = (2 - 1 / 2 ^ 52) * 2 ^ 1023"

text \<open>\<open>Math.pow(10, rippleDb / 10)\<close> overflows to \<open>Infinity\<close> when the power exceeds
  the largest double; \<open>eps\<close> is then \<open>Infinity\<close> (\<open>None\<close>) and \<open>1 / eps\<close> is 0.
  \<open>Math.acosh\<close> of a number below 1 is \<open>NaN\<close>, so \<open>passbandToDb3Scale\<close> is then
  \<open>NaN\<close> (\<open>None\<close>). For \<open>rippleDb \<le> 0\<close> the source computes with \<open>NaN\<close> or
  \<open>Infinity\<close> throughout; the definition is meant for \<open>rippleDb > 0\<close>.\<close>

definition chebyshevPoles :: "int \<Rightarrow> real \<Rightarrow> Complex list \<times> real option" where
  "chebyshevPoles ord ripple =
     (let pw = 10 powr (ripple / 10);
          eps = (if MAX_VALUE < pw then None else Some (sqrt (pw - 1)));
          inv_eps = (case eps of None \<Rightarrow> 0 | Some e \<Rightarrow> 1 / e);
          mu = (1 / real_of_int ord) * arsinh inv_eps;
          ps = map (\<lambda>k. let theta = (pi * (2 * real k + 1)) / (2 * real_of_int ord)
                         in \<lparr>re = - sinh mu * sin theta, im = cosh mu * cos theta\<rparr>)
                   [0..<nat ord];
          scale = (if inv_eps < 1 then None
                   else Some (cosh ((1 / real_of_int ord) * arcosh inv_eps)))
      in (ps, scale))"

text \<open>The table \<open>DATA\<close> of \<open>besselPoles\<close>: for each tabulated order the poles and
  \<open>omega3dB\<close>; \<open>None\<close> is JavaScript's \<open>undefined\<close> for a key that is absent.\<close>

definition bessel_DATA :: "int \<Rightarrow> (Complex list \<times> real) option" where
  "bessel_DATA ord =
    (if ord = 1 then Some ([\<lparr>re = -1.0, im = 0\<rparr>], 1.0)
     else if ord = 2 then Some
       ([\<lparr>re = -1.1016, im = 0.6368\<rparr>, \<lparr>re = -1.1016, im = -0.6368\<rparr>], 1.3617)
     else if ord = 3 then Some
       ([\<lparr>re = -1.0474, im = 0.9992\<rparr>, \<lparr>re = -1.0474, im = -0.9992\<rparr>,
         \<lparr>re = -1.3227, im = 0\<rparr>], 1.7557)
     else if ord = 4 then Some
       ([\<lparr>re = -0.9953, im = 1.2571\<rparr>, \<lparr>re = -0.9953, im = -1.2571\<rparr>,
         \<lparr>re = -1.3707, im = 0.4103\<rparr>, \<lparr>re = -1.3707, im = -0.4103\<rparr>], 2.1139)
     else if ord = 5 then Some
       ([\<lparr>re = -0.9576, im = 1.4711\<rparr>, \<lparr>re = -0.9576, im = -1.4711\<rparr>,
         \<lparr>re = -1.381, im = 0.7179\<rparr>, \<lparr>re = -1.381, im = -0.7179\<rparr>,
         \<lparr>re = -1.3851, im = 0\<rparr>], 2.4274)
     else if ord = 6 then Some
       ([\<lparr>re = -0.9318, im = 1.6617\<rparr>, \<lparr>re = -0.9318, im = -1.6617\<rparr>,
         \<lparr>re = -1.3226, im = 0.9715\<rparr>, \<lparr>re = -1.3226, im = -0.9715\<rparr>,
         \<lparr>re = -1.3836, im = 0.1073\<rparr>, \<lparr>re = -1.3836, im = -0.1073\<rparr>], 2.7034)
     else if ord = 7 then Some
       ([\<lparr>re = -0.9104, im = 1.8375\<rparr>, \<lparr>re = -0.9104, im = -1.8375\<rparr>,
         \<lparr>re = -1.2629, im = 1.1923\<rparr>, \<lparr>re = -1.2629, im = -1.1923\<rparr>,
         \<lparr>re = -1.378, im = 0.3213\<rparr>, \<lparr>re = -1.378, im = -0.3213\<rparr>,
         \<lparr>re = -1.3797, im = 0\<rparr>], 2.9517)
     else if ord = 8 then Some
       ([\<lparr>re = -0.8955, im = 2.0044\<rparr>, \<lparr>re = -0.8955, im = -2.0044\<rparr>,
         \<lparr>re = -1.2062, im = 1.3926\<rparr>, \<lparr>re = -1.2062, im = -1.3926\<rparr>,
         \<lparr>re = -1.3683, im = 0.5287\<rparr>, \<lparr>re = -1.3683, im = -0.5287\<rparr>,
         \<lparr>re = -1.378, im = 0.0569\<rparr>, \<lparr>re = -1.378, im = -0.0569\<rparr>], 3.1796)
     else None)"

text \<open>\<open>if (!entry) return DATA[2]!.poles\<close>: the early return hands out the table's
  poles as they are stored; only the path below it divides by \<open>omega3dB\<close>.\<close>

definition besselPoles :: "int \<Rightarrow> Complex list" where
  "besselPoles ord =
     (case bessel_DATA ord of
        None \<Rightarrow> fst (the (bessel_DATA 2))
      | Some entry \<Rightarrow>
          (let scale = snd entry
           in map (\<lambda>p. \<lparr>re = re p / scale, im = im p / scale\<rparr>) (fst entry)))"

section \<open>Filter design (filterDesign.ts)\<close>

subsection \<open>Bilinear transform\<close>

text \<open>The pole returned is that of exact arithmetic. In doubles \<open>1 + s.re * halfT\<close> and
  \<open>1 - s.re * halfT\<close> round to 1 once \<open>|s.re * halfT| < 2\<^sup>-\<^sup>5\<^sup>3\<close>, and the source then
  returns a pole on the unit circle; nothing below depends on where the pole lies.\<close>

definition bilinear :: "Complex \<Rightarrow> real \<Rightarrow> Complex" where
  "bilinear s sampleRate =
     (let T = 1 / sampleRate;
          halfT = T / 2;
          nRe = 1 + re s * halfT;
          nIm = im s * halfT;
          dRe = 1 - re s * halfT;
          dIm = - im s * halfT;
          dMag2 = dRe * dRe + dIm * dIm
      in \<lparr>re = (nRe * dRe + nIm * dIm) / dMag2,
          im = (nIm * dRe - nRe * dIm) / dMag2\<rparr>)"

subsection \<open>Analog prototype poles of a specification\<close>

text \<open>The \<open>default\<close> branch of the \<open>switch\<close> is unreachable for a \<open>FilterFamily\<close>.\<close>

definition getAnalogPoles :: "FilterParams \<Rightarrow> Complex list" where
  "getAnalogPoles params =
     (case family params of
        butterworth \<Rightarrow> butterworthPoles (order params)
      | chebyshev \<Rightarrow> fst (chebyshevPoles (order params) (rippleDb params))
      | bessel \<Rightarrow> besselPoles (order params))"

subsection \<open>Pairing conjugate poles\<close>

text \<open>\<open>AnalogSOS.poles\<close> is \<open>[Complex] | [Complex, Complex]\<close>.\<close>

datatype AnalogSOS = Single Complex | Pair Complex Complex

fun section_poles :: "AnalogSOS \<Rightarrow> Complex list" where
  "section_poles (Single p) = [p]"
| "section_poles (Pair p q) = [p, q]"

definition tol :: real where
  "tol = 1 / 10 ^ 10"

definition is_conjugate :: "Complex \<Rightarrow> Complex \<Rightarrow> bool" where
  "is_conjugate p q \<longleftrightarrow> \<bar>re p - re q\<bar> < tol \<and> \<bar>im p + im q\<bar> < tol"

text \<open>The inner loop: the first \<open>j\<close> in \<open>i + 1 ..< poles.length\<close> that is unused and
  matches, or none.\<close>

definition find_partner :: "Complex list \<Rightarrow> bool list \<Rightarrow> nat \<Rightarrow> nat option" where
  "find_partner ps used i =
     List.find (\<lambda>j. \<not> used ! j \<and> is_conjugate (ps ! i) (ps ! j)) [Suc i..<length ps]"

text \<open>One pass of the outer loop body at index \<open>i\<close>, on the pair of the \<open>used\<close> flags
  and the sections pushed so far. Every index read is below \<open>poles.length\<close>.\<close>

definition pair_step ::
  "Complex list \<Rightarrow> nat \<Rightarrow> bool list \<times> AnalogSOS list \<Rightarrow> bool list \<times> AnalogSOS list" where
  "pair_step ps i st =
     (let used = fst st; sections = snd st
      in if used ! i then (used, sections)
         else if \<bar>im (ps ! i)\<bar> < tol
           then (used[i := True], sections @ [Single \<lparr>re = re (ps ! i), im = 0\<rparr>])
         else (case find_partner ps used i of
                 Some j \<Rightarrow> (used[i := True, j := True], sections @ [Pair (ps ! i) (ps ! j)])
               | None \<Rightarrow> (used[i := True], sections @ [Single (ps ! i)])))"

definition pairConjugatePoles :: "Complex list \<Rightarrow> AnalogSOS list" where
  "pairConjugatePoles ps =
     snd (fold (pair_step ps) [0..<length ps] (replicate (length ps) False, []))"

subsection \<open>Second-order sections\<close>

text \<open>The body of the loop of \<open>buildSOS\<close> for one analog section: the section's
  coefficients, the digital poles it pushes and the zeros it pushes. The coefficients are
  those of exact arithmetic; in doubles \<open>denAtEval\<close> is a rounded sum that can cancel to
  0, and nothing below depends on the coefficients' values.\<close>

definition buildSection ::
  "real \<Rightarrow> real \<Rightarrow> real \<Rightarrow> real \<Rightarrow> AnalogSOS \<Rightarrow>
     SOSSection \<times> Complex list \<times> Complex list" where
  "buildSection omegaA sampleRate zeroZ evalAt sec =
     (case sec of
        Single p \<Rightarrow>
          (let sScaled = \<lparr>re = omegaA * re p, im = 0\<rparr>;
               zp = bilinear sScaled sampleRate;
               a1 = - re zp;
               b1Raw = - zeroZ;
               numAtEval = 1 + b1Raw * evalAt;
               denAtEval = 1 + a1 * evalAt;
               g = denAtEval / numAtEval
           in (\<lparr>b = (g, g * b1Raw, 0), a = (1, a1, 0)\<rparr>,
               [zp], [\<lparr>re = zeroZ, im = 0\<rparr>]))
      | Pair p q \<Rightarrow>
          (let s1 = \<lparr>re = omegaA * re p, im = omegaA * im p\<rparr>;
               s2 = \<lparr>re = omegaA * re q, im = omegaA * im q\<rparr>;
               zp1 = bilinear s1 sampleRate;
               zp2 = bilinear s2 sampleRate;
               a1 = - (re zp1 + re zp2);
               a2 = re zp1 * re zp2 - im zp1 * im zp2;
               b1Raw = - 2 * zeroZ;
               b2Raw = zeroZ * zeroZ;
               numAtEval = 1 + b1Raw * evalAt + b2Raw * evalAt * evalAt;
               denAtEval = 1 + a1 * evalAt + a2 * evalAt * evalAt;
               g = denAtEval / numAtEval
           in (\<lparr>b = (g, g * b1Raw, g * b2Raw), a = (1, a1, a2)\<rparr>,
               [zp1, zp2], [\<lparr>re = zeroZ, im = 0\<rparr>, \<lparr>re = zeroZ, im = 0\<rparr>])))"

text \<open>\<open>buildSOS\<close> returns \<open>{sos, zPoles, zZeros}\<close>, here a triple in that order.\<close>

definition buildSOS ::
  "FilterParams \<Rightarrow> real \<Rightarrow> Complex list \<Rightarrow>
     SOSSection list \<times> Complex list \<times> Complex list" where
  "buildSOS params sampleRate analogPoles =
     (let omegaD = (2 * pi * cutoffFrequency params) / sampleRate;
          omegaA = 2 * sampleRate * tan (omegaD / 2);
          zeroZ = (if type params = lowpass then - 1 else 1);
          evalAt = (if type params = lowpass then 1 else - 1);
          analogSections = pairConjugatePoles analogPoles;
          built = map (buildSection omegaA sampleRate zeroZ evalAt) analogSections
      in (map fst built,
          concat (map (\<lambda>r. fst (snd r)) built),
          concat (map (\<lambda>r. snd (snd r)) built)))"

subsection \<open>Frequency response\<close>

text \<open>\<open>Math.atan2 y x\<close> for finite arguments (signed zeros apart).\<close>

definition atan2 :: "real \<Rightarrow> real \<Rightarrow> real" where
  "atan2 y x =
     (if 0 < x then arctan (y / x)
      else if x < 0 then (if 0 \<le> y then arctan (y / x) + pi else arctan (y / x) - pi)
      else if 0 < y then pi / 2
      else if y < 0 then - (pi / 2)
      else 0)"

text \<open>The body of the inner loop over the sections: \<open>total := total * h\<close>.\<close>

definition accumulate_section ::
  "real \<Rightarrow> real \<Rightarrow> real \<Rightarrow> real \<Rightarrow> SOSSection \<Rightarrow> real \<times> real \<Rightarrow> real \<times> real" where
  "accumulate_section cw sw c2w s2w s acc =
     (let totalRe = fst acc; totalIm = snd acc;
          sb0 = fst (b s); sb1 = fst (snd (b s)); sb2 = snd (snd (b s));
          sa1 = fst (snd (a s)); sa2 = snd (snd (a s));
          nRe = sb0 + sb1 * cw + sb2 * c2w;
          nIm = - sb1 * sw - sb2 * s2w;
          dRe = 1 + sa1 * cw + sa2 * c2w;
          dIm = - sa1 * sw - sa2 * s2w;
          dMag2 = dRe * dRe + dIm * dIm;
          hRe = (nRe * dRe + nIm * dIm) / dMag2;
          hIm = (nIm * dRe - nRe * dIm) / dMag2;
          tRe = totalRe * hRe - totalIm * hIm;
          tIm = totalRe * hIm + totalIm * hRe
      in (tRe, tIm))"

text \<open>The body of the outer loop at index \<open>i\<close>: the frequency, the magnitude in dB and
  the phase stored at that index.\<close>

definition evalPoint :: "SOSSection list \<Rightarrow> real \<Rightarrow> nat \<Rightarrow> nat \<Rightarrow> real \<times> real \<times> real" where
  "evalPoint ss sampleRate numPoints i =
     (let nyquist = sampleRate / 2;
          f = (real i / real numPoints) * nyquist;
          omega = (2 * pi * f) / sampleRate;
          cw = cos omega;
          sw = sin omega;
          c2w = cos (2 * omega);
          s2w = sin (2 * omega);
          acc = fold (accumulate_section cw sw c2w s2w) ss (1, 0);
          totalRe = fst acc; totalIm = snd acc;
          mag = sqrt (totalRe * totalRe + totalIm * totalIm)
      in (f, 20 * log 10 (max mag (1 / 10 ^ 12)), atan2 totalIm totalRe))"

text \<open>\<open>evalSOS\<close> returns \<open>{frequencies, magnitudeDb, phase}\<close>, three arrays of length
  \<open>numPoints\<close>, here a triple in that order.\<close>

definition evalSOS ::
  "SOSSection list \<Rightarrow> real \<Rightarrow> nat \<Rightarrow> real list \<times> real list \<times> real list" where
  "evalSOS ss sampleRate numPoints =
     (let pts = map (evalPoint ss sampleRate numPoints) [0..<numPoints]
      in (map fst pts, map (\<lambda>r. fst (snd r)) pts, map (\<lambda>r. snd (snd r)) pts))"

subsection \<open>Public entry point\<close>

definition designFilter :: "FilterParams \<Rightarrow> real \<Rightarrow> nat \<Rightarrow> FilterDesignResult" where
  "designFilter params sampleRate numFreqPoints =
     (let analogPoles = getAnalogPoles params;
          built = buildSOS params sampleRate analogPoles;
          resp = evalSOS (fst built) sampleRate numFreqPoints
      in \<lparr>poles = fst (snd built),
          zeros = snd (snd built),
          sos = fst built,
          frequencies = fst resp,
          magnitudeDb = fst (snd resp),
          phase = snd (snd resp)\<rparr>)"

section \<open>Realtime cascade processor (FilterProcessor)\<close>

record Coeffs =
  b0 :: real
  b1 :: real
  b2 :: real
  a1 :: real
  a2 :: real

text \<open>A section of the processor: the five coefficients and the delay memory.\<close>

record SectionState = Coeffs +
  x1 :: real
  x2 :: real
  y1 :: real
  y2 :: real

text \<open>\<open>oldCoeffs\<close> and \<open>newCoeffs\<close> are \<open>null\<close> (\<open>None\<close>) until the first update with an
  unchanged section count.\<close>

record FilterProcessor =
  sections :: "SectionState list"
  oldCoeffs :: "Coeffs list option"
  newCoeffs :: "Coeffs list option"
  interpPos :: nat
  interpFrames :: nat
  interpolating :: bool

definition constructor :: FilterProcessor where
  "constructor = \<lparr>sections = [], oldCoeffs = None, newCoeffs = None,
                  interpPos = 0, interpFrames = 256, interpolating = False\<rparr>"

text \<open>The message carries sections with three-element arrays \<open>b\<close> and \<open>a\<close>, so the
  defaults \<open>?? 0\<close> of the source never apply.\<close>

definition incoming_coeffs :: "SOSSection \<Rightarrow> Coeffs" where
  "incoming_coeffs s =
     \<lparr>b0 = fst (b s), b1 = fst (snd (b s)), b2 = snd (snd (b s)),
      a1 = fst (snd (a s)), a2 = snd (snd (a s))\<rparr>"

definition coeffs_of :: "SectionState \<Rightarrow> Coeffs" where
  "coeffs_of s = \<lparr>b0 = b0 s, b1 = b1 s, b2 = b2 s, a1 = a1 s, a2 = a2 s\<rparr>"

definition fresh_section :: "Coeffs \<Rightarrow> SectionState" where
  "fresh_section c =
     \<lparr>b0 = b0 c, b1 = b1 c, b2 = b2 c, a1 = a1 c, a2 = a2 c,
      x1 = 0, x2 = 0, y1 = 0, y2 = 0\<rparr>"

definition updateCoefficients :: "FilterProcessor \<Rightarrow> SOSSection list \<Rightarrow> FilterProcessor" where
  "updateCoefficients this msg =
     (let incoming = map incoming_coeffs msg
      in if length incoming \<noteq> length (sections this)
         then this\<lparr>sections := map fresh_section incoming, interpolating := False\<rparr>
         else this\<lparr>oldCoeffs := Some (map coeffs_of (sections this)),
                   newCoeffs := Some incoming,
                   interpPos := 0,
                   interpolating := True\<rparr>)"

text \<open>Reading \<open>oldCoeffs[s]\<close> or \<open>newCoeffs[s]\<close> where the array is \<open>null\<close> or too short
  throws a TypeError; \<open>None\<close> is that exception.\<close>

definition coeff_array :: "Coeffs list option \<Rightarrow> Coeffs list" where
  "coeff_array cs = (case cs of None \<Rightarrow> [] | Some xs \<Rightarrow> xs)"

definition interpolate_section :: "real \<Rightarrow> SectionState \<Rightarrow> Coeffs \<Rightarrow> Coeffs \<Rightarrow> SectionState" where
  "interpolate_section alpha sec o' n =
     sec\<lparr>b0 := b0 o' + alpha * (b0 n - b0 o'),
         b1 := b1 o' + alpha * (b1 n - b1 o'),
         b2 := b2 o' + alpha * (b2 n - b2 o'),
         a1 := a1 o' + alpha * (a1 n - a1 o'),
         a2 := a2 o' + alpha * (a2 n - a2 o')\<rparr>"

fun interpolate_sections ::
  "real \<Rightarrow> SectionState list \<Rightarrow> Coeffs list \<Rightarrow> Coeffs list \<Rightarrow> SectionState list option" where
  "interpolate_sections alpha [] os ns = Some []"
| "interpolate_sections alpha (sec # secs) (o' # os) (n # ns) =
     map_option ((#) (interpolate_section alpha sec o' n)) (interpolate_sections alpha secs os ns)"
| "interpolate_sections alpha (sec # secs) os ns = None"

definition snap_section :: "SectionState \<Rightarrow> Coeffs \<Rightarrow> SectionState" where
  "snap_section sec n = sec\<lparr>b0 := b0 n, b1 := b1 n, b2 := b2 n, a1 := a1 n, a2 := a2 n\<rparr>"

fun snap_sections :: "SectionState list \<Rightarrow> Coeffs list \<Rightarrow> SectionState list option" where
  "snap_sections [] ns = Some []"
| "snap_sections (sec # secs) (n # ns) = map_option ((#) (snap_section sec n)) (snap_sections secs ns)"
| "snap_sections (sec # secs) [] = None"

text \<open>The block \<open>if (this.interpolating) { ... }\<close> at the head of the loop body of
  \<open>process\<close>: it runs before the sample is filtered.\<close>

definition interpolation_step :: "FilterProcessor \<Rightarrow> FilterProcessor option" where
  "interpolation_step this =
     (if interpolating this then
        (let alpha = real (interpPos this) / real (interpFrames this)
         in case interpolate_sections alpha (sections this)
                   (coeff_array (oldCoeffs this)) (coeff_array (newCoeffs this)) of
              None \<Rightarrow> None
            | Some secs \<Rightarrow>
                (let this1 = this\<lparr>sections := secs, interpPos := interpPos this + 1\<rparr>
                 in if interpFrames this1 \<le> interpPos this1
                    then (case snap_sections secs (coeff_array (newCoeffs this1)) of
                            None \<Rightarrow> None
                          | Some snapped \<Rightarrow>
                              Some (this1\<lparr>sections := snapped, interpolating := False\<rparr>))
                    else Some this1))
      else Some this)"

text \<open>The cascade \<open>for (const sec of this.sections)\<close>: the direct-form difference
  equation of each section, the delay memory shifted, the output fed to the next.\<close>

fun cascade :: "SectionState list \<Rightarrow> real \<Rightarrow> SectionState list \<times> real" where
  "cascade [] sample = ([], sample)"
| "cascade (sec # rest) sample =
     (let y = b0 sec * sample + b1 sec * x1 sec + b2 sec * x2 sec
              - a1 sec * y1 sec - a2 sec * y2 sec;
          sec' = sec\<lparr>x2 := x1 sec, x1 := sample, y2 := y1 sec, y1 := y\<rparr>;
          r = cascade rest y
      in (sec' # fst r, snd r))"

definition process_sample :: "FilterProcessor \<Rightarrow> real \<Rightarrow> (FilterProcessor \<times> real) option" where
  "process_sample this x =
     (case interpolation_step this of
        None \<Rightarrow> None
      | Some this1 \<Rightarrow>
          (let r = cascade (sections this1) x
           in Some (this1\<lparr>sections := fst r\<rparr>, snd r)))"

fun process_samples ::
  "FilterProcessor \<Rightarrow> real list \<Rightarrow> (FilterProcessor \<times> real list) option" where
  "process_samples this [] = Some (this, [])"
| "process_samples this (x # xs) =
     (case process_sample this x of
        None \<Rightarrow> None
      | Some (this1, y) \<Rightarrow>
          (case process_samples this1 xs of
             None \<Rightarrow> None
           | Some (this2, ys) \<Rightarrow> Some (this2, y # ys)))"

text \<open>\<open>process\<close>: a missing input or output channel leaves everything as it is; with
  no sections the input is copied to the output.\<close>

definition process ::
  "FilterProcessor \<Rightarrow> real list option \<Rightarrow> (FilterProcessor \<times> real list option) option" where
  "process this input =
     (case input of
        None \<Rightarrow> Some (this, None)
      | Some xs \<Rightarrow>
          if length (sections this) = 0 then Some (this, Some xs)
          else map_option (\<lambda>r. (fst r, Some (snd r))) (process_samples this xs))"

text \<open>The coefficients that filter the next sample: those of the sections after the
  interpolation block of that sample has run.\<close>

definition applied_coeffs :: "FilterProcessor \<Rightarrow> Coeffs list option" where
  "applied_coeffs this = map_option (\<lambda>t. map coeffs_of (sections t)) (interpolation_step this)"

section \<open>Notions used in the statements and proofs\<close>

text \<open>The state of the outer loop of \<open>pairConjugatePoles\<close> after the indices below \<open>k\<close>.\<close>

definition pair_state :: "Complex list \<Rightarrow> nat \<Rightarrow> bool list \<times> AnalogSOS list" where
  "pair_state ps k = fold (pair_step ps) [0..<k] (replicate (length ps) False, [])"

text \<open>The number of poles held by a list of analog sections.\<close>

definition pole_count :: "AnalogSOS list \<Rightarrow> nat" where
  "pole_count secs = sum_list (map (\<lambda>s. length (section_poles s)) secs)"

text \<open>Loop invariant of the pairing: the flags cover the list, every index already visited is
  marked, and the sections hold as many poles as there are marks.\<close>

definition pair_inv :: "Complex list \<Rightarrow> nat \<Rightarrow> bool list \<times> AnalogSOS list \<Rightarrow> bool" where
  "pair_inv ps k st \<longleftrightarrow>
     length (fst st) = length ps \<and> (\<forall>i<k. fst st ! i) \<and>
     pole_count (snd st) = count_list (fst st) True"

text \<open>A section seen as the indices of the input poles it was built from: one index, or
  the two indices of a pair.\<close>

datatype pole_group = Alone nat | Couple nat nat

fun group_indices :: "pole_group \<Rightarrow> nat list" where
  "group_indices (Alone i) = [i]"
| "group_indices (Couple i j) = [i, j]"

text \<open>The section the loop pushes for such a group: a near-real pole loses its imaginary
  part, an unmatched pole is kept as it is, a pair keeps both poles.\<close>

fun section_of :: "Complex list \<Rightarrow> pole_group \<Rightarrow> AnalogSOS" where
  "section_of ps (Alone i) =
     (if \<bar>im (ps ! i)\<bar> < tol then Single \<lparr>re = re (ps ! i), im = 0\<rparr> else Single (ps ! i))"
| "section_of ps (Couple i j) = Pair (ps ! i) (ps ! j)"

text \<open>What the loop guarantees of a group: the first pole of a pair is not near-real and
  matches the second, which comes later in the list; a lone pole that is not near-real
  had no partner left, that is, every later pole matching it was already the second pole
  of an earlier pair.\<close>

fun group_ok :: "Complex list \<Rightarrow> pole_group list \<Rightarrow> pole_group \<Rightarrow> bool" where
  "group_ok ps gs (Alone i) \<longleftrightarrow>
     (\<not> \<bar>im (ps ! i)\<bar> < tol \<longrightarrow>
        (\<forall>j \<in> {i<..<length ps}. is_conjugate (ps ! i) (ps ! j) \<longrightarrow>
           (\<exists>i' \<in> {..<i}. Couple i' j \<in> set gs)))"
| "group_ok ps gs (Couple i j) \<longleftrightarrow>
     i < j \<and> \<not> \<bar>im (ps ! i)\<bar> < tol \<and> is_conjugate (ps ! i) (ps ! j)"

text \<open>Loop invariant of the pairing in terms of groups: the marked indices are exactly
  those in the groups, each once; every index already visited is marked; a marked index
  not yet visited is the second pole of an earlier pair.\<close>

definition grp_inv :: "Complex list \<Rightarrow> nat \<Rightarrow> bool list \<Rightarrow> pole_group list \<Rightarrow> bool" where
  "grp_inv ps k used gs \<longleftrightarrow>
     length used = length ps \<and> (\<forall>i<k. used ! i) \<and>
     distinct (concat (map group_indices gs)) \<and>
     set (concat (map group_indices gs)) = {i. i < length ps \<and> used ! i} \<and>
     (\<forall>g \<in> set gs. group_ok ps gs g) \<and>
     (\<forall>j. k \<le> j \<and> j < length ps \<and> used ! j \<longrightarrow> (\<exists>i' \<in> {..<k}. Couple i' j \<in> set gs))"

text \<open>A conjugate pair around a real pole.\<close>

definition example_poles :: "Complex list" where
  "example_poles = [\<lparr>re = - 1, im = 1\<rparr>, \<lparr>re = - 2, im = 0\<rparr>, \<lparr>re = - 1, im = - 1\<rparr>]"

text \<open>The locals \<open>omegaA\<close>, \<open>zeroZ\<close> and \<open>evalAt\<close> of \<open>buildSOS\<close>.\<close>

definition omegaA_of :: "FilterParams \<Rightarrow> real \<Rightarrow> real" where
  "omegaA_of params fs = 2 * fs * tan (((2 * pi * cutoffFrequency params) / fs) / 2)"

definition zeroZ_of :: "FilterParams \<Rightarrow> real" where
  "zeroZ_of params = (if type params = lowpass then - 1 else 1)"

definition evalAt_of :: "FilterParams \<Rightarrow> real" where
  "evalAt_of params = (if type params = lowpass then 1 else - 1)"

text \<open>The linear blend \<open>old + alpha * (new - old)\<close> of two coefficient sets.\<close>

definition lerp_coeffs :: "real \<Rightarrow> Coeffs \<Rightarrow> Coeffs \<Rightarrow> Coeffs" where
  "lerp_coeffs alpha o' n =
     \<lparr>b0 = b0 o' + alpha * (b0 n - b0 o'),
      b1 = b1 o' + alpha * (b1 n - b1 o'),
      b2 = b2 o' + alpha * (b2 n - b2 o'),
      a1 = a1 o' + alpha * (a1 n - a1 o'),
      a2 = a2 o' + alpha * (a2 n - a2 o')\<rparr>"

text \<open>A transition in progress at position \<open>p\<close> of a window of 256 frames, between the
  coefficient sets \<open>os\<close> and \<open>ns\<close>, one per section.\<close>

definition interp_run :: "FilterProcessor \<Rightarrow> Coeffs list \<Rightarrow> Coeffs list \<Rightarrow> nat \<Rightarrow> bool" where
  "interp_run st os ns p \<longleftrightarrow>
     interpolating st \<and> interpFrames st = 256 \<and> interpPos st = p \<and>
     oldCoeffs st = Some os \<and> newCoeffs st = Some ns \<and>
     length os = length (sections st) \<and> length ns = length (sections st)"

text \<open>A one-section processor that holds \<open>old_msg\<close> and has just consumed \<open>new_msg\<close>.\<close>

definition old_msg :: SOSSection where
  "old_msg = \<lparr>b = (0, 0, 0), a = (1, 0, 0)\<rparr>"

definition new_msg :: SOSSection where
  "new_msg = \<lparr>b = (256, 0, 0), a = (1, 0, 0)\<rparr>"

definition ramp_start :: FilterProcessor where
  "ramp_start = updateCoefficients (updateCoefficients constructor [old_msg]) [new_msg]"

text \<open>Sample specifications: the default design of the application, a Chebyshev
  highpass, and a Bessel design of order 9, beyond the table.\<close>

definition example_spec :: FilterParams where
  "example_spec = \<lparr>family = butterworth, type = lowpass, order = 4,
                    cutoffFrequency = 1000, rippleDb = 1\<rparr>"

definition bessel9_spec :: FilterParams where
  "bessel9_spec = \<lparr>family = bessel, type = lowpass, order = 9,
                    cutoffFrequency = 1000, rippleDb = 1\<rparr>"

section \<open>Properties of the analog prototypes\<close>

lemma butterworthPoles_length: "length (butterworthPoles N) = nat N"
  by (simp add: butterworthPoles_def)

lemma chebyshevPoles_length: "length (fst (chebyshevPoles N r)) = nat N"
  by (simp add: chebyshevPoles_def Let_def)

lemma butterworth_angle_cos_neg:
  assumes "k < nat N"
  shows "cos ((pi * (2 * real k + real_of_int N + 1)) / (2 * real_of_int N)) < 0"
proof -
  from assms have Npos: "0 < real_of_int N" by simp
  from assms have kN: "real k + 1 \<le> real_of_int N" by linarith
  define t where "t = (pi * (2 * real k + 1)) / (2 * real_of_int N)"
  have split: "(pi * (2 * real k + real_of_int N + 1)) / (2 * real_of_int N) = t + pi / 2"
    using Npos by (simp add: t_def field_simps)
  have "0 < t" using Npos by (simp add: t_def)
  moreover have "t < pi"
  proof -
    have "2 * real k + 1 < 2 * real_of_int N" using kN by linarith
    then have "pi * (2 * real k + 1) < pi * (2 * real_of_int N)"
      by (simp add: mult_strict_left_mono)
    then show ?thesis using Npos by (simp add: t_def field_simps)
  qed
  ultimately have "0 < sin t" by (rule sin_gt_zero)
  then show ?thesis by (simp add: split cos_add)
qed

lemma butterworthPoles_re_neg:
  assumes "p \<in> set (butterworthPoles N)"
  shows "re p < 0"
proof -
  from assms obtain k where "k < nat N"
    and "p = \<lparr>re = cos ((pi * (2 * real k + real_of_int N + 1)) / (2 * real_of_int N)),
              im = sin ((pi * (2 * real k + real_of_int N + 1)) / (2 * real_of_int N))\<rparr>"
    by (auto simp: butterworthPoles_def Let_def)
  then show ?thesis using butterworth_angle_cos_neg by simp
qed

lemma chebyshev_eps_pos:
  assumes "0 < r"
  shows "0 < sqrt (10 powr (r / 10) - 1)"
proof -
  have "(10::real) powr 0 < 10 powr (r / 10)"
    using assms by (intro powr_less_mono) simp_all
  then show ?thesis by simp
qed

lemma arsinh_pos:
  assumes "0 < (x::real)"
  shows "0 < arsinh x"
proof -
  have "1 < x + sqrt (x\<^sup>2 + 1)"
  proof -
    have "sqrt 1 \<le> sqrt (x\<^sup>2 + 1)" by (intro real_sqrt_le_mono) simp
    then have "1 \<le> sqrt (x\<^sup>2 + 1)" by simp
    then show ?thesis using assms by linarith
  qed
  then show ?thesis by (simp add: arsinh_real_def)
qed

lemma chebyshev_theta_sin_pos:
  assumes "k < nat N"
  shows "0 < sin ((pi * (2 * real k + 1)) / (2 * real_of_int N))"
proof -
  from assms have Npos: "0 < real_of_int N" by simp
  from assms have kN: "real k + 1 \<le> real_of_int N" by linarith
  have "0 < (pi * (2 * real k + 1)) / (2 * real_of_int N)" using Npos by simp
  moreover have "(pi * (2 * real k + 1)) / (2 * real_of_int N) < pi"
  proof -
    have "2 * real k + 1 < 2 * real_of_int N" using kN by linarith
    then have "pi * (2 * real k + 1) < pi * (2 * real_of_int N)"
      by (simp add: mult_strict_left_mono)
    then show ?thesis using Npos by (simp add: field_simps)
  qed
  ultimately show ?thesis by (rule sin_gt_zero)
qed

lemma chebyshevPoles_re_neg:
  assumes "0 < r" and "10 powr (r / 10) \<le> MAX_VALUE"
    and "p \<in> set (fst (chebyshevPoles N r))"
  shows "re p < 0"
proof -
  define mu where "mu = (1 / real_of_int N) * arsinh (1 / sqrt (10 powr (r / 10) - 1))"
  from assms(2,3) obtain k where k: "k < nat N"
    and p: "re p = - sinh mu * sin ((pi * (2 * real k + 1)) / (2 * real_of_int N))"
    by (auto simp: chebyshevPoles_def Let_def mu_def)
  from k have Npos: "0 < real_of_int N" by simp
  have "0 < arsinh (1 / sqrt (10 powr (r / 10) - 1))"
    using chebyshev_eps_pos [OF assms(1)] by (intro arsinh_pos) simp
  then have "0 < mu" using Npos by (simp add: mu_def)
  then have "0 < sinh mu" by simp
  then have "0 < sinh mu * sin ((pi * (2 * real k + 1)) / (2 * real_of_int N))"
    using chebyshev_theta_sin_pos [OF k] by simp
  then show ?thesis by (simp add: p)
qed

lemma chebyshevPoles_overflow:
  assumes "MAX_VALUE < 10 powr (r / 10)" and "p \<in> set (fst (chebyshevPoles N r))"
  shows "re p = 0"
  using assms by (auto simp: chebyshevPoles_def Let_def)

lemma no_overflow_3000:
  assumes "r \<le> 3000"
  shows "10 powr (r / 10) \<le> MAX_VALUE"
proof -
  have "(10::real) powr (r / 10) \<le> 10 powr 300" using assms by (intro powr_mono) simp_all
  also have "\<dots> = (10::real) ^ 300" by simp
  also have "\<dots> = ((10::real) ^ 3) ^ 100" by (simp only: power_mult [symmetric]) simp
  also have "\<dots> \<le> ((2::real) ^ 10) ^ 100" by (intro power_mono) simp_all
  also have "\<dots> = (2::real) ^ 1000" by (simp only: power_mult [symmetric]) simp
  also have "\<dots> \<le> 2 ^ 1023" by (rule power_increasing) simp_all
  also have "\<dots> \<le> MAX_VALUE"
  proof -
    have "(1::real) \<le> 2 - 1 / 2 ^ 52" by simp
    then have "1 * (2::real) ^ 1023 \<le> (2 - 1 / 2 ^ 52) * 2 ^ 1023"
      by (intro mult_right_mono) simp_all
    then show ?thesis by (simp add: MAX_VALUE_def)
  qed
  finally show ?thesis .
qed

lemma MAX_VALUE_lt: "MAX_VALUE < 10 powr (4000 / 10)"
proof -
  have "MAX_VALUE < 2 * 2 ^ 1023" by (simp add: MAX_VALUE_def)
  also have "\<dots> = (2::real) ^ (13 * 78) * 2 ^ 10" by (simp add: power_add [symmetric])
  also have "\<dots> = (2 ^ 13) ^ 78 * (2::real) ^ 10" by (simp only: power_mult)
  also have "\<dots> \<le> (10 ^ 4) ^ 78 * (10::real) ^ 4"
    by (intro mult_mono power_mono) simp_all
  also have "\<dots> = (10::real) ^ 316" by (simp only: power_mult [symmetric] power_add [symmetric]) simp
  also have "\<dots> \<le> 10 ^ 400" by (rule power_increasing) simp_all
  finally show ?thesis by simp
qed

lemma besselPoles_length_table:
  assumes "1 \<le> N" and "N \<le> 8"
  shows "length (besselPoles N) = nat N"
proof -
  from assms have "N = 1 \<or> N = 2 \<or> N = 3 \<or> N = 4 \<or> N = 5 \<or> N = 6 \<or> N = 7 \<or> N = 8"
    by arith
  then show ?thesis
    by (elim disjE) (simp_all add: besselPoles_def bessel_DATA_def)
qed

lemma besselPoles_fallback:
  assumes "N < 1 \<or> 8 < N"
  shows "besselPoles N = [\<lparr>re = -1.1016, im = 0.6368\<rparr>, \<lparr>re = -1.1016, im = -0.6368\<rparr>]"
proof -
  from assms have "bessel_DATA N = None" by (auto simp: bessel_DATA_def)
  then show ?thesis by (simp add: besselPoles_def) (simp add: bessel_DATA_def)
qed

lemma besselPoles_re_neg:
  assumes "p \<in> set (besselPoles N)"
  shows "re p < 0"
proof (cases "1 \<le> N \<and> N \<le> 8")
  case True
  then have "N = 1 \<or> N = 2 \<or> N = 3 \<or> N = 4 \<or> N = 5 \<or> N = 6 \<or> N = 7 \<or> N = 8"
    by arith
  then show ?thesis using assms
    by (elim disjE) (auto simp: besselPoles_def bessel_DATA_def)
next
  case False
  then have "N < 1 \<or> 8 < N" by arith
  from besselPoles_fallback [OF this] assms show ?thesis by auto
qed

text \<open>
  Claim C4, as the code has it: for every order \<open>N \<ge> 1\<close>, \<open>butterworthPoles\<close> and
  \<open>chebyshevPoles\<close> return exactly \<open>N\<close> poles, \<open>besselPoles\<close> returns exactly \<open>N\<close> poles
  for \<open>N \<le> 8\<close> and the two poles of the order-2 table entry for \<open>N > 8\<close>; every pole of
  \<open>butterworthPoles\<close> and \<open>besselPoles\<close> has a strictly negative real part, and so has
  every pole of \<open>chebyshevPoles\<close> for a ripple with \<open>0 < ripple \<le> 3000\<close> dB, where
  \<open>Math.pow(10, ripple / 10)\<close> is finite (it overflows from about 3083 dB on).
\<close>

theorem analog_prototype_poles:
  assumes "1 \<le> N" and "0 < ripple" and "ripple \<le> 3000"
  shows "length (butterworthPoles N) = nat N \<and>
         length (fst (chebyshevPoles N ripple)) = nat N \<and>
         length (besselPoles N) = (if N \<le> 8 then nat N else 2) \<and>
         (\<forall>p \<in> set (butterworthPoles N). re p < 0) \<and>
         (\<forall>p \<in> set (fst (chebyshevPoles N ripple)). re p < 0) \<and>
         (\<forall>p \<in> set (besselPoles N). re p < 0)"
proof -
  have "length (besselPoles N) = (if N \<le> 8 then nat N else 2)"
  proof (cases "N \<le> 8")
    case True
    then show ?thesis using assms(1) by (simp add: besselPoles_length_table)
  next
    case False
    then have "N < 1 \<or> 8 < N" by simp
    from besselPoles_fallback [OF this] False show ?thesis by simp
  qed
  then show ?thesis
    using butterworthPoles_length chebyshevPoles_length butterworthPoles_re_neg
      chebyshevPoles_re_neg [OF assms(2) no_overflow_3000 [OF assms(3)]] besselPoles_re_neg
    by blast
qed

theorem analog_prototype_poles_witness:
  "(1::int) \<le> 3 \<and> (0::real) < 1 \<and> (1::real) \<le> 3000 \<and>
   length (butterworthPoles 3) = 3 \<and> length (fst (chebyshevPoles 3 1)) = 3 \<and>
   length (besselPoles 3) = 3 \<and> length (besselPoles 9) = 2 \<and>
   re (hd (butterworthPoles 3)) < 0 \<and> re (hd (fst (chebyshevPoles 3 1))) < 0 \<and>
   re (hd (besselPoles 3)) < 0"
proof -
  have h1: "(1::int) \<le> 3" and h2: "(0::real) < 1" and h3: "(1::int) \<le> 9"
    and h4: "(1::real) \<le> 3000" by simp_all
  have n1: "hd (butterworthPoles 3) \<in> set (butterworthPoles 3)"
    by (rule hd_in_set) (simp add: butterworthPoles_def)
  have n2: "hd (fst (chebyshevPoles 3 1)) \<in> set (fst (chebyshevPoles 3 1))"
    by (rule hd_in_set) (simp add: chebyshevPoles_def Let_def)
  have n3: "hd (besselPoles 3) \<in> set (besselPoles 3)"
    by (rule hd_in_set) (simp add: besselPoles_def bessel_DATA_def)
  show ?thesis
    using analog_prototype_poles [OF h1 h2 h4] analog_prototype_poles [OF h3 h2 h4] n1 n2 n3
    by simp
qed

text \<open>At a ripple of 4000 dB the power overflows and the single pole of the order-1
  Chebyshev prototype has real part 0, which is not strictly negative.\<close>

theorem chebyshevPoles_overflow_re_zero:
  "(1::int) \<le> 1 \<and> (0::real) < 4000 \<and> length (fst (chebyshevPoles 1 4000)) = 1 \<and>
   re (hd (fst (chebyshevPoles 1 4000))) = 0"
proof -
  have len: "length (fst (chebyshevPoles 1 4000)) = 1" by (simp add: chebyshevPoles_length)
  then have "hd (fst (chebyshevPoles 1 4000)) \<in> set (fst (chebyshevPoles 1 4000))"
    by (intro hd_in_set) auto
  from chebyshevPoles_overflow [OF MAX_VALUE_lt this] len show ?thesis by simp
qed

text \<open>At order 9, outside the table, \<open>besselPoles\<close> does not return 9 poles.\<close>

theorem besselPoles_order9_length:
  "(1::int) \<le> 9 \<and> length (besselPoles 9) \<noteq> nat 9"
  by (simp add: besselPoles_def bessel_DATA_def)

text \<open>
  Claim C3: for an order outside \<open>1..8\<close>, \<open>besselPoles\<close> is claimed to return the
  order-2 entry scaled by \<open>1/omega3dB\<close>, the pole set of \<open>besselPoles 2\<close>. At order 9 the
  code returns the order-2 entry as it is stored, not divided by \<open>1.3617\<close>, which is not
  what \<open>besselPoles 2\<close> returns.
\<close>

theorem besselPoles_fallback_not_scaled:
  "besselPoles 9 = [\<lparr>re = -1.1016, im = 0.6368\<rparr>, \<lparr>re = -1.1016, im = -0.6368\<rparr>] \<and>
   besselPoles 2 = [\<lparr>re = -1.1016 / 1.3617, im = 0.6368 / 1.3617\<rparr>,
                    \<lparr>re = -1.1016 / 1.3617, im = -0.6368 / 1.3617\<rparr>] \<and>
   besselPoles 9 \<noteq> besselPoles 2"
  by (simp add: besselPoles_def bessel_DATA_def)

section \<open>Properties of the frequency grid\<close>

lemma evalSOS_frequencies:
  "fst (evalSOS ss fs n) = map (\<lambda>i. (real i / real n) * (fs / 2)) [0..<n]"
  by (simp add: evalSOS_def evalPoint_def Let_def)

text \<open>
  Claim C6, as the code has it: the grid of \<open>evalSOS\<close> has \<open>numPoints\<close> entries,
  \<open>frequencies[i] = (i / numPoints) * (sampleRate / 2)\<close>; it starts at 0, is uniformly
  spaced, and for a positive sample rate its last entry lies strictly below Nyquist,
  so Nyquist itself is not a grid point.
\<close>

theorem frequency_grid:
  "length (fst (evalSOS ss fs n)) = n \<and>
   (\<forall>i<n. fst (evalSOS ss fs n) ! i = (real i / real n) * (fs / 2)) \<and>
   (1 \<le> n \<longrightarrow> fst (evalSOS ss fs n) ! 0 = 0) \<and>
   (1 \<le> n \<and> 0 < fs \<longrightarrow> fst (evalSOS ss fs n) ! (n - 1) < fs / 2)"
proof -
  have "fst (evalSOS ss fs n) ! (n - 1) < fs / 2" if "1 \<le> n" and "0 < fs"
  proof -
    have "real (n - 1) / real n < 1" using that(1) by simp
    then have "(real (n - 1) / real n) * (fs / 2) < 1 * (fs / 2)"
      using that(2) by (intro mult_strict_right_mono) simp_all
    then show ?thesis using that(1) by (simp add: evalSOS_frequencies)
  qed
  then show ?thesis by (simp add: evalSOS_frequencies)
qed

theorem frequency_grid_witness:
  "length (fst (evalSOS [] 8 4)) = 4 \<and> fst (evalSOS [] 8 4) ! 2 = 2 \<and>
   fst (evalSOS [] 8 4) ! 0 = 0 \<and> fst (evalSOS [] 8 4) ! 3 < 8 / 2"
  using frequency_grid [of "[]" 8 4] by simp

text \<open>With four points at a sample rate of 8, the last grid point is 3, not the
  Nyquist frequency 4.\<close>

theorem frequency_grid_last_below_nyquist:
  "(1::nat) \<le> 4 \<and> fst (evalSOS [] 8 4) ! (4 - 1) = 3 \<and> fst (evalSOS [] 8 4) ! (4 - 1) \<noteq> 8 / 2"
  by (simp add: evalSOS_frequencies)

section \<open>Properties of the pole pairing\<close>

lemma pair_state_0: "pair_state ps 0 = (replicate (length ps) False, [])"
  by (simp add: pair_state_def)

lemma pair_state_Suc: "pair_state ps (Suc k) = pair_step ps k (pair_state ps k)"
  by (simp add: pair_state_def)

lemma pairConjugatePoles_state: "pairConjugatePoles ps = snd (pair_state ps (length ps))"
  by (simp add: pairConjugatePoles_def pair_state_def)

lemma find_partner_Some:
  assumes "find_partner ps used i = Some j"
  shows "i < j \<and> j < length ps \<and> \<not> used ! j \<and> is_conjugate (ps ! i) (ps ! j)"
proof -
  from assms have "j \<in> set [Suc i..<length ps] \<and> \<not> used ! j \<and> is_conjugate (ps ! i) (ps ! j)"
    unfolding find_partner_def by (auto simp: find_Some_iff)
  then show ?thesis by auto
qed

lemma count_mark:
  assumes "i < length used" and "\<not> used ! i"
  shows "count_list (used[i := True]) True = Suc (count_list used True)"
  using assms
proof (induction used arbitrary: i)
  case Nil
  then show ?case by simp
next
  case (Cons u us)
  then show ?case by (cases i) auto
qed

lemma count_all:
  assumes "\<forall>i<length used. used ! i"
  shows "count_list used True = length used"
  using assms
proof (induction used)
  case Nil
  then show ?case by simp
next
  case (Cons u us)
  from Cons.prems have "u" by (metis length_greater_0_conv list.distinct(1) nth_Cons_0)
  moreover from Cons.prems have "\<forall>i<length us. us ! i" by fastforce
  ultimately show ?case using Cons.IH by simp
qed

lemma pole_count_snoc: "pole_count (secs @ [s]) = pole_count secs + length (section_poles s)"
  by (simp add: pole_count_def)

lemma pair_step_inv:
  assumes inv: "pair_inv ps k st" and k: "k < length ps"
  shows "pair_inv ps (Suc k) (pair_step ps k st)"
proof -
  obtain used secs where st: "st = (used, secs)" by (cases st)
  from inv st have len: "length used = length ps" and seen: "\<forall>i<k. used ! i"
    and cnt: "pole_count secs = count_list used True"
    by (simp_all add: pair_inv_def)
  show ?thesis
  proof (cases "used ! k")
    case True
    then have "pair_step ps k st = (used, secs)" by (simp add: pair_step_def st)
    moreover have "\<forall>i<Suc k. used ! i" using seen True by (simp add: less_Suc_eq)
    ultimately show ?thesis using len cnt by (simp add: pair_inv_def)
  next
    case unused: False
    have mark: "\<forall>i<Suc k. used[k := True] ! i"
      using seen k len by (simp add: less_Suc_eq nth_list_update)
    have cnt1: "count_list (used[k := True]) True = Suc (count_list used True)"
      using count_mark k len unused by simp
    show ?thesis
    proof (cases "\<bar>im (ps ! k)\<bar> < tol")
      case True
      then have "pair_step ps k st =
          (used[k := True], secs @ [Single \<lparr>re = re (ps ! k), im = 0\<rparr>])"
        using unused by (simp add: pair_step_def st)
      then show ?thesis using mark cnt1 cnt len
        by (simp add: pair_inv_def pole_count_snoc)
    next
      case notreal: False
      show ?thesis
      proof (cases "find_partner ps used k")
        case None
        then have "pair_step ps k st = (used[k := True], secs @ [Single (ps ! k)])"
          using unused notreal by (simp add: pair_step_def st)
        then show ?thesis using mark cnt1 cnt len
          by (simp add: pair_inv_def pole_count_snoc)
      next
        case (Some j)
        from find_partner_Some [OF Some]
        have kj: "k < j" and j: "j < length ps" and uj: "\<not> used ! j" by simp_all
        have step: "pair_step ps k st =
            (used[k := True, j := True], secs @ [Pair (ps ! k) (ps ! j)])"
          using unused notreal Some by (simp add: pair_step_def st)
        have "\<not> used[k := True] ! j" using uj kj by simp
        then have cnt2: "count_list (used[k := True, j := True]) True
            = Suc (Suc (count_list used True))"
          using count_mark [of j "used[k := True]"] j len cnt1 by simp
        have mark2: "\<forall>i<Suc k. used[k := True, j := True] ! i"
          using mark j len by (simp add: nth_list_update)
        show ?thesis using step mark2 cnt2 cnt len
          by (simp add: pair_inv_def pole_count_snoc)
      qed
    qed
  qed
qed

lemma pair_state_inv:
  assumes "k \<le> length ps"
  shows "pair_inv ps k (pair_state ps k)"
  using assms
proof (induction k)
  case 0
  have "count_list (replicate n False) True = 0" for n by (induction n) simp_all
  then show ?case by (simp add: pair_state_0 pair_inv_def pole_count_def)
next
  case (Suc k)
  then show ?case by (simp add: pair_state_Suc pair_step_inv)
qed

lemma pairConjugatePoles_count: "pole_count (pairConjugatePoles ps) = length ps"
proof -
  have "pair_inv ps (length ps) (pair_state ps (length ps))" by (simp add: pair_state_inv)
  then show ?thesis
    using count_all [of "fst (pair_state ps (length ps))"]
    by (simp add: pair_inv_def pairConjugatePoles_state)
qed

lemma group_ok_mono:
  assumes "group_ok ps gs g" and "set gs \<subseteq> set gs'"
  shows "group_ok ps gs' g"
proof (cases g)
  case (Alone i)
  with assms show ?thesis by simp blast
next
  case (Couple i j)
  with assms show ?thesis by simp
qed

lemma find_partner_None:
  assumes "find_partner ps used i = None" and "i < j" and "j < length ps"
    and "is_conjugate (ps ! i) (ps ! j)"
  shows "used ! j"
proof -
  from assms(2,3) have "j \<in> set [Suc i..<length ps]" by simp
  with assms(1,4) show ?thesis unfolding find_partner_def find_None_iff by blast
qed

lemma grp_step_skip:
  assumes inv: "grp_inv ps k used gs" and k: "k < length ps" and u: "used ! k"
  shows "grp_inv ps (Suc k) used gs"
proof -
  have "\<forall>i<Suc k. used ! i" using inv u by (auto simp: grp_inv_def less_Suc_eq)
  moreover have "\<exists>i' \<in> {..<Suc k}. Couple i' j \<in> set gs"
    if "Suc k \<le> j" "j < length ps" "used ! j" for j
  proof -
    from inv that have "\<exists>i' \<in> {..<k}. Couple i' j \<in> set gs" by (simp add: grp_inv_def)
    then show ?thesis by auto
  qed
  ultimately show ?thesis using inv by (simp add: grp_inv_def)
qed

lemma grp_step_alone:
  assumes inv: "grp_inv ps k used gs" and k: "k < length ps" and u: "\<not> used ! k"
    and ok: "group_ok ps (gs @ [Alone k]) (Alone k)"
  shows "grp_inv ps (Suc k) (used[k := True]) (gs @ [Alone k])"
proof -
  from inv have len: "length used = length ps" and seen: "\<forall>i<k. used ! i"
    and dist: "distinct (concat (map group_indices gs))"
    and cover: "set (concat (map group_indices gs)) = {i. i < length ps \<and> used ! i}"
    and oks: "\<forall>g \<in> set gs. group_ok ps gs g"
    and later: "\<forall>j. k \<le> j \<and> j < length ps \<and> used ! j \<longrightarrow> (\<exists>i' \<in> {..<k}. Couple i' j \<in> set gs)"
    by (simp_all add: grp_inv_def)
  have knew: "k \<notin> set (concat (map group_indices gs))" using cover u by simp
  have c1: "length (used[k := True]) = length ps" using len by simp
  have c2: "\<forall>i<Suc k. used[k := True] ! i"
    using seen k len by (simp add: less_Suc_eq nth_list_update)
  have c3: "distinct (concat (map group_indices (gs @ [Alone k])))"
    using dist knew by simp
  have c4: "set (concat (map group_indices (gs @ [Alone k])))
      = {i. i < length ps \<and> used[k := True] ! i}"
    using cover k len by (auto simp: nth_list_update)
  have c5: "\<forall>g \<in> set (gs @ [Alone k]). group_ok ps (gs @ [Alone k]) g"
  proof
    fix g assume "g \<in> set (gs @ [Alone k])"
    then consider "g \<in> set gs" | "g = Alone k" by auto
    then show "group_ok ps (gs @ [Alone k]) g"
    proof cases
      case 1
      with oks have "group_ok ps gs g" by blast
      then show ?thesis by (rule group_ok_mono) auto
    next
      case 2
      then show ?thesis using ok by simp
    qed
  qed
  have c6: "\<exists>i' \<in> {..<Suc k}. Couple i' j \<in> set (gs @ [Alone k])"
    if "Suc k \<le> j" "j < length ps" "used[k := True] ! j" for j
  proof -
    from that have "used ! j" by (simp add: nth_list_update split: if_splits)
    with later that have "\<exists>i' \<in> {..<k}. Couple i' j \<in> set gs" by simp
    then show ?thesis by auto
  qed
  show ?thesis unfolding grp_inv_def using c1 c2 c3 c4 c5 c6 by blast
qed

lemma grp_step_couple:
  assumes inv: "grp_inv ps k used gs" and k: "k < length ps" and u: "\<not> used ! k"
    and kj: "k < j" and j: "j < length ps" and uj: "\<not> used ! j"
    and ok: "group_ok ps (gs @ [Couple k j]) (Couple k j)"
  shows "grp_inv ps (Suc k) (used[k := True, j := True]) (gs @ [Couple k j])"
proof -
  from inv have len: "length used = length ps" and seen: "\<forall>i<k. used ! i"
    and dist: "distinct (concat (map group_indices gs))"
    and cover: "set (concat (map group_indices gs)) = {i. i < length ps \<and> used ! i}"
    and oks: "\<forall>g \<in> set gs. group_ok ps gs g"
    and later: "\<forall>j. k \<le> j \<and> j < length ps \<and> used ! j \<longrightarrow> (\<exists>i' \<in> {..<k}. Couple i' j \<in> set gs)"
    by (simp_all add: grp_inv_def)
  have knew: "k \<notin> set (concat (map group_indices gs))" using cover u by simp
  have jnew: "j \<notin> set (concat (map group_indices gs))" using cover uj by simp
  have c1: "length (used[k := True, j := True]) = length ps" using len by simp
  have c2: "\<forall>i<Suc k. used[k := True, j := True] ! i"
    using seen k j len by (simp add: less_Suc_eq nth_list_update)
  have c3: "distinct (concat (map group_indices (gs @ [Couple k j])))"
    using dist knew jnew kj by simp
  have c4: "set (concat (map group_indices (gs @ [Couple k j])))
      = {i. i < length ps \<and> used[k := True, j := True] ! i}"
    using cover k j len by (auto simp: nth_list_update)
  have c5: "\<forall>g \<in> set (gs @ [Couple k j]). group_ok ps (gs @ [Couple k j]) g"
  proof
    fix g assume "g \<in> set (gs @ [Couple k j])"
    then consider "g \<in> set gs" | "g = Couple k j" by auto
    then show "group_ok ps (gs @ [Couple k j]) g"
    proof cases
      case 1
      with oks have "group_ok ps gs g" by blast
      then show ?thesis by (rule group_ok_mono) auto
    next
      case 2
      then show ?thesis using ok by simp
    qed
  qed
  have c6: "\<exists>i' \<in> {..<Suc k}. Couple i' j' \<in> set (gs @ [Couple k j])"
    if "Suc k \<le> j'" "j' < length ps" "used[k := True, j := True] ! j'" for j'
  proof (cases "j' = j")
    case True
    then show ?thesis by auto
  next
    case False
    with that have "used ! j'" by (simp add: nth_list_update split: if_splits)
    with later that have "\<exists>i' \<in> {..<k}. Couple i' j' \<in> set gs" by simp
    then show ?thesis by auto
  qed
  show ?thesis unfolding grp_inv_def using c1 c2 c3 c4 c5 c6 by blast
qed

lemma pair_step_groups:
  assumes inv: "grp_inv ps k used gs" and k: "k < length ps"
  shows "\<exists>used' gs'. pair_step ps k (used, map (section_of ps) gs)
             = (used', map (section_of ps) gs') \<and> grp_inv ps (Suc k) used' gs'"
proof (cases "used ! k")
  case True
  then have "pair_step ps k (used, map (section_of ps) gs) = (used, map (section_of ps) gs)"
    by (simp add: pair_step_def)
  with grp_step_skip [OF inv k True] show ?thesis by blast
next
  case unused: False
  show ?thesis
  proof (cases "\<bar>im (ps ! k)\<bar> < tol")
    case True
    then have "pair_step ps k (used, map (section_of ps) gs)
        = (used[k := True], map (section_of ps) (gs @ [Alone k]))"
      using unused by (simp add: pair_step_def)
    moreover have "group_ok ps (gs @ [Alone k]) (Alone k)" using True by simp
    ultimately show ?thesis using grp_step_alone [OF inv k unused] by blast
  next
    case notreal: False
    show ?thesis
    proof (cases "find_partner ps used k")
      case None
      then have step: "pair_step ps k (used, map (section_of ps) gs)
          = (used[k := True], map (section_of ps) (gs @ [Alone k]))"
        using unused notreal by (simp add: pair_step_def)
      have "group_ok ps (gs @ [Alone k]) (Alone k)"
      proof -
        have "\<exists>i' \<in> {..<k}. Couple i' j \<in> set (gs @ [Alone k])"
          if "j \<in> {k<..<length ps}" "is_conjugate (ps ! k) (ps ! j)" for j
        proof -
          from that have kj: "k < j" "j < length ps" by simp_all
          from find_partner_None [OF None kj that(2)] have "used ! j" .
          with inv kj have "\<exists>i' \<in> {..<k}. Couple i' j \<in> set gs" by (simp add: grp_inv_def)
          then show ?thesis by auto
        qed
        then show ?thesis by simp
      qed
      with step show ?thesis using grp_step_alone [OF inv k unused] by blast
    next
      case (Some j)
      from find_partner_Some [OF Some]
      have kj: "k < j" and j: "j < length ps" and uj: "\<not> used ! j"
        and conj: "is_conjugate (ps ! k) (ps ! j)" by simp_all
      have step: "pair_step ps k (used, map (section_of ps) gs)
          = (used[k := True, j := True], map (section_of ps) (gs @ [Couple k j]))"
        using unused notreal Some by (simp add: pair_step_def)
      have "group_ok ps (gs @ [Couple k j]) (Couple k j)" using kj notreal conj by simp
      with step show ?thesis using grp_step_couple [OF inv k unused kj j uj] by blast
    qed
  qed
qed

lemma pair_state_groups:
  assumes "k \<le> length ps"
  shows "\<exists>used gs. pair_state ps k = (used, map (section_of ps) gs) \<and> grp_inv ps k used gs"
  using assms
proof (induction k)
  case 0
  have "grp_inv ps 0 (replicate (length ps) False) []" by (simp add: grp_inv_def)
  then have "pair_state ps 0 = (replicate (length ps) False, map (section_of ps) []) \<and>
      grp_inv ps 0 (replicate (length ps) False) []"
    by (simp add: pair_state_0)
  then show ?case by blast
next
  case (Suc k)
  then obtain used gs where st: "pair_state ps k = (used, map (section_of ps) gs)"
    and inv: "grp_inv ps k used gs" by auto
  from Suc.prems have "k < length ps" by simp
  from pair_step_groups [OF inv this] show ?case by (simp add: pair_state_Suc st)
qed

lemma pairConjugatePoles_example:
  "pairConjugatePoles example_poles =
     [Pair \<lparr>re = - 1, im = 1\<rparr> \<lparr>re = - 1, im = - 1\<rparr>, Single \<lparr>re = - 2, im = 0\<rparr>]"
proof -
  have u: "[0..<length example_poles] = [0, Suc 0, Suc (Suc 0)]"
    by (simp add: example_poles_def upt_rec)
  have n: "example_poles ! 0 = \<lparr>re = - 1, im = 1\<rparr>"
    "example_poles ! Suc 0 = \<lparr>re = - 2, im = 0\<rparr>"
    "example_poles ! Suc (Suc 0) = \<lparr>re = - 1, im = - 1\<rparr>"
    by (simp_all add: example_poles_def)
  have f0: "find_partner example_poles [False, False, False] 0 = Some (Suc (Suc 0))"
    by (simp add: find_partner_def example_poles_def is_conjugate_def tol_def upt_rec)
  have s1: "pair_step example_poles 0 ([False, False, False], [])
      = ([True, False, True], [Pair \<lparr>re = - 1, im = 1\<rparr> \<lparr>re = - 1, im = - 1\<rparr>])"
    by (simp add: pair_step_def Let_def f0 n tol_def)
  have s2: "pair_step example_poles (Suc 0)
        ([True, False, True], [Pair \<lparr>re = - 1, im = 1\<rparr> \<lparr>re = - 1, im = - 1\<rparr>])
      = ([True, True, True],
         [Pair \<lparr>re = - 1, im = 1\<rparr> \<lparr>re = - 1, im = - 1\<rparr>, Single \<lparr>re = - 2, im = 0\<rparr>])"
    by (simp add: pair_step_def Let_def n tol_def)
  have s3: "pair_step example_poles (Suc (Suc 0))
        ([True, True, True],
         [Pair \<lparr>re = - 1, im = 1\<rparr> \<lparr>re = - 1, im = - 1\<rparr>, Single \<lparr>re = - 2, im = 0\<rparr>])
      = ([True, True, True],
         [Pair \<lparr>re = - 1, im = 1\<rparr> \<lparr>re = - 1, im = - 1\<rparr>, Single \<lparr>re = - 2, im = 0\<rparr>])"
    by (simp add: pair_step_def Let_def)
  have r: "replicate (length example_poles) False = [False, False, False]"
    by (simp add: example_poles_def)
  show ?thesis
    unfolding pairConjugatePoles_def u r by (simp add: s1 s2 s3)
qed

text \<open>
  Claim C10: \<open>pairConjugatePoles\<close> puts every input pole into exactly one section. The
  returned sections are those of a list of index groups in which every index of the input
  occurs exactly once; a group is one pole (near-real, or not near-real with no unused
  matching pole after it) or a matched pair; so the poles of all returned sections
  together are as many as the input poles.
\<close>

theorem pairConjugatePoles_partition:
  "\<exists>gs. pairConjugatePoles ps = map (section_of ps) gs \<and>
         distinct (concat (map group_indices gs)) \<and>
         set (concat (map group_indices gs)) = {..<length ps} \<and>
         (\<forall>g \<in> set gs. group_ok ps gs g) \<and>
         sum_list (map (\<lambda>s. length (section_poles s)) (pairConjugatePoles ps)) = length ps"
proof -
  from pair_state_groups [of "length ps" ps]
  obtain used gs where st: "pair_state ps (length ps) = (used, map (section_of ps) gs)"
    and inv: "grp_inv ps (length ps) used gs" by auto
  from inv have "set (concat (map group_indices gs)) = {..<length ps}"
    by (auto simp: grp_inv_def)
  moreover have "sum_list (map (\<lambda>s. length (section_poles s)) (pairConjugatePoles ps)) = length ps"
    using pairConjugatePoles_count [of ps] by (simp add: pole_count_def)
  ultimately show ?thesis
    using st inv by (auto simp: pairConjugatePoles_state grp_inv_def)
qed

theorem pairConjugatePoles_partition_witness:
  "\<exists>gs. pairConjugatePoles example_poles = map (section_of example_poles) gs \<and>
         distinct (concat (map group_indices gs)) \<and>
         set (concat (map group_indices gs)) = {..<3} \<and>
         sum_list (map (\<lambda>s. length (section_poles s)) (pairConjugatePoles example_poles)) = 3"
proof -
  have "length example_poles = 3" by (simp add: example_poles_def)
  with pairConjugatePoles_partition [of example_poles] show ?thesis by auto
qed

section \<open>Properties of the design pipeline\<close>

lemma getAnalogPoles_length:
  "length (getAnalogPoles params) =
     (if family params = bessel \<and> (order params < 1 \<or> 8 < order params) then 2
      else nat (order params))"
proof (cases "family params")
  case butterworth
  then show ?thesis by (simp add: getAnalogPoles_def butterworthPoles_length)
next
  case chebyshev
  then show ?thesis by (simp add: getAnalogPoles_def chebyshevPoles_length)
next
  case bessel
  show ?thesis
  proof (cases "order params < 1 \<or> 8 < order params")
    case True
    from besselPoles_fallback [OF this] True bessel show ?thesis
      by (simp add: getAnalogPoles_def)
  next
    case False
    then have "1 \<le> order params" and "order params \<le> 8" by simp_all
    from besselPoles_length_table [OF this] False bessel show ?thesis
      by (simp add: getAnalogPoles_def)
  qed
qed

lemma buildSection_zPoles_length:
  "length (fst (snd (buildSection oA fs zz ev sec))) = length (section_poles sec)"
  by (cases sec) (simp_all add: buildSection_def Let_def)

lemma buildSection_zZeros:
  "snd (snd (buildSection oA fs zz ev sec))
     = replicate (length (section_poles sec)) \<lparr>re = zz, im = 0\<rparr>"
  by (cases sec) (simp_all add: buildSection_def Let_def)

lemma buildSOS_parts:
  "fst (buildSOS params fs aps) =
     map (\<lambda>sec. fst (buildSection (omegaA_of params fs) fs (zeroZ_of params) (evalAt_of params) sec))
       (pairConjugatePoles aps)"
  "fst (snd (buildSOS params fs aps)) =
     concat (map (\<lambda>sec. fst (snd (buildSection (omegaA_of params fs) fs (zeroZ_of params)
       (evalAt_of params) sec))) (pairConjugatePoles aps))"
  "snd (snd (buildSOS params fs aps)) =
     concat (map (\<lambda>sec. snd (snd (buildSection (omegaA_of params fs) fs (zeroZ_of params)
       (evalAt_of params) sec))) (pairConjugatePoles aps))"
  by (simp_all add: buildSOS_def Let_def omegaA_of_def zeroZ_of_def evalAt_of_def comp_def)

lemma length_concat_sections:
  assumes "\<And>sec. length (f sec) = length (section_poles sec)"
  shows "length (concat (map f secs)) = pole_count secs"
  using assms by (induction secs) (simp_all add: pole_count_def)

lemma buildSOS_zPoles_length: "length (fst (snd (buildSOS params fs aps))) = length aps"
  by (simp add: buildSOS_parts(2) length_concat_sections buildSection_zPoles_length
      pairConjugatePoles_count)

lemma buildSOS_zZeros_length: "length (snd (snd (buildSOS params fs aps))) = length aps"
  by (simp add: buildSOS_parts(3) length_concat_sections buildSection_zZeros
      pairConjugatePoles_count)

lemma buildSOS_zZeros_value:
  assumes "z \<in> set (snd (snd (buildSOS params fs aps)))"
  shows "z = \<lparr>re = zeroZ_of params, im = 0\<rparr>"
  using assms by (auto simp: buildSOS_parts(3) buildSection_zZeros)

lemma design_poles_length:
  "length (poles (designFilter params fs n)) = length (getAnalogPoles params)"
  by (simp add: designFilter_def Let_def buildSOS_zPoles_length)

text \<open>
  Claim C8, as the code has it: for every specification of order \<open>\<ge> 1\<close>, the result of
  \<open>designFilter\<close> has as many zeros as poles; that number is the order, except for the
  Bessel family at an order above 8, where it is 2; and every zero is \<open>(-1, 0)\<close> for a
  lowpass and \<open>(+1, 0)\<close> for a highpass response.
\<close>

theorem design_zero_pole_counts:
  assumes "1 \<le> order params"
  shows "length (zeros (designFilter params fs n)) = length (poles (designFilter params fs n)) \<and>
         length (poles (designFilter params fs n)) =
           (if family params = bessel \<and> 8 < order params then 2 else nat (order params)) \<and>
         (\<forall>z \<in> set (zeros (designFilter params fs n)).
            z = (if type params = lowpass then \<lparr>re = - 1, im = 0\<rparr> else \<lparr>re = 1, im = 0\<rparr>))"
proof -
  have "length (getAnalogPoles params) =
      (if family params = bessel \<and> 8 < order params then 2 else nat (order params))"
    using assms by (simp add: getAnalogPoles_length)
  then show ?thesis
    using buildSOS_zZeros_value [of _ params fs "getAnalogPoles params"]
    by (auto simp: designFilter_def Let_def buildSOS_zPoles_length buildSOS_zZeros_length
        zeroZ_of_def)
qed

theorem design_zero_pole_counts_witness:
  "1 \<le> order example_spec \<and>
   length (zeros (designFilter example_spec 44100 1024)) = 4 \<and>
   length (poles (designFilter example_spec 44100 1024)) = 4 \<and>
   zeros (designFilter example_spec 44100 1024) ! 0 = \<lparr>re = - 1, im = 0\<rparr>"
proof -
  have h: "1 \<le> order example_spec" by (simp add: example_spec_def)
  have fam: "family example_spec = butterworth" "type example_spec = lowpass"
    "nat (order example_spec) = 4"
    by (simp_all add: example_spec_def)
  from design_zero_pole_counts [OF h, of 44100 1024] fam
  have len: "length (zeros (designFilter example_spec 44100 1024)) = 4"
    "length (poles (designFilter example_spec 44100 1024)) = 4"
    and all: "\<forall>z \<in> set (zeros (designFilter example_spec 44100 1024)). z = \<lparr>re = - 1, im = 0\<rparr>"
    by simp_all
  from len(1) have "zeros (designFilter example_spec 44100 1024) ! 0
      \<in> set (zeros (designFilter example_spec 44100 1024))"
    by (intro nth_mem) simp
  with all have "zeros (designFilter example_spec 44100 1024) ! 0 = \<lparr>re = - 1, im = 0\<rparr>"
    by blast
  with h len show ?thesis by simp
qed

text \<open>The Bessel design of order 9 has two poles, not nine.\<close>

theorem design_bessel_order9_counts:
  "1 \<le> order bessel9_spec \<and>
   length (poles (designFilter bessel9_spec 44100 1024)) = 2 \<and>
   length (poles (designFilter bessel9_spec 44100 1024)) \<noteq> nat (order bessel9_spec)"
  by (simp add: design_poles_length getAnalogPoles_length bessel9_spec_def)

section \<open>Properties of coefficient updates\<close>

text \<open>
  Claim C7: when the section count of the message differs from the current one, after
  \<open>_updateCoefficients\<close> the sections hold exactly the incoming coefficients, every
  section's delay memory is \<open>x1 = x2 = y1 = y2 = 0\<close>, and no interpolation is in progress,
  whatever the prior state was.
\<close>

theorem update_reset:
  assumes "length msg \<noteq> length (sections this)"
  shows "map coeffs_of (sections (updateCoefficients this msg)) = map incoming_coeffs msg \<and>
         (\<forall>s \<in> set (sections (updateCoefficients this msg)).
            x1 s = 0 \<and> x2 s = 0 \<and> y1 s = 0 \<and> y2 s = 0) \<and>
         \<not> interpolating (updateCoefficients this msg)"
  using assms
  by (auto simp: updateCoefficients_def Let_def coeffs_of_def fresh_section_def)

theorem update_reset_witness:
  "length [\<lparr>b = (1, 2, 3), a = (1, 4, 5)\<rparr>] \<noteq> length (sections constructor) \<and>
   map coeffs_of (sections (updateCoefficients constructor [\<lparr>b = (1, 2, 3), a = (1, 4, 5)\<rparr>]))
     = [\<lparr>b0 = 1, b1 = 2, b2 = 3, a1 = 4, a2 = 5\<rparr>] \<and>
   map (\<lambda>s. (x1 s, x2 s, y1 s, y2 s))
     (sections (updateCoefficients constructor [\<lparr>b = (1, 2, 3), a = (1, 4, 5)\<rparr>]))
     = [(0, 0, 0, 0)] \<and>
   \<not> interpolating (updateCoefficients constructor [\<lparr>b = (1, 2, 3), a = (1, 4, 5)\<rparr>])"
proof -
  have h: "length [\<lparr>b = (1, 2, 3), a = (1, 4, 5)\<rparr>] \<noteq> length (sections constructor)"
    by (simp add: constructor_def)
  show ?thesis
    using update_reset [OF h] h
    by (simp add: incoming_coeffs_def updateCoefficients_def constructor_def fresh_section_def)
qed

text \<open>
  Claim C9: when the section count of the message equals the current one,
  \<open>_updateCoefficients\<close> leaves the sections, and so every section's delay memory
  \<open>(x1, x2, y1, y2)\<close>, unchanged; it writes only \<open>oldCoeffs\<close>, \<open>newCoeffs\<close>, \<open>interpPos\<close>
  and \<open>interpolating\<close>.
\<close>

theorem update_same_count_frame:
  assumes "length msg = length (sections this)"
  shows "sections (updateCoefficients this msg) = sections this \<and>
         map (\<lambda>s. (x1 s, x2 s, y1 s, y2 s)) (sections (updateCoefficients this msg))
           = map (\<lambda>s. (x1 s, x2 s, y1 s, y2 s)) (sections this) \<and>
         interpFrames (updateCoefficients this msg) = interpFrames this \<and>
         oldCoeffs (updateCoefficients this msg) = Some (map coeffs_of (sections this)) \<and>
         newCoeffs (updateCoefficients this msg) = Some (map incoming_coeffs msg) \<and>
         interpPos (updateCoefficients this msg) = 0 \<and>
         interpolating (updateCoefficients this msg)"
  using assms by (simp add: updateCoefficients_def Let_def)

theorem update_same_count_frame_witness:
  "length [\<lparr>b = (1, 2, 3), a = (1, 4, 5)\<rparr>]
     = length (sections (constructor\<lparr>sections :=
         [\<lparr>b0 = 6, b1 = 7, b2 = 8, a1 = 9, a2 = 10, x1 = 11, x2 = 12, y1 = 13, y2 = 14\<rparr>]\<rparr>)) \<and>
   map (\<lambda>s. (x1 s, x2 s, y1 s, y2 s))
     (sections (updateCoefficients (constructor\<lparr>sections :=
         [\<lparr>b0 = 6, b1 = 7, b2 = 8, a1 = 9, a2 = 10, x1 = 11, x2 = 12, y1 = 13, y2 = 14\<rparr>]\<rparr>)
        [\<lparr>b = (1, 2, 3), a = (1, 4, 5)\<rparr>]))
     = [(11, 12, 13, 14)] \<and>
   oldCoeffs (updateCoefficients (constructor\<lparr>sections :=
         [\<lparr>b0 = 6, b1 = 7, b2 = 8, a1 = 9, a2 = 10, x1 = 11, x2 = 12, y1 = 13, y2 = 14\<rparr>]\<rparr>)
        [\<lparr>b = (1, 2, 3), a = (1, 4, 5)\<rparr>])
     = Some [\<lparr>b0 = 6, b1 = 7, b2 = 8, a1 = 9, a2 = 10\<rparr>]"
proof -
  have h: "length [\<lparr>b = (1, 2, 3), a = (1, 4, 5)\<rparr>]
     = length (sections (constructor\<lparr>sections :=
         [\<lparr>b0 = 6, b1 = 7, b2 = 8, a1 = 9, a2 = 10, x1 = 11, x2 = 12, y1 = 13, y2 = 14\<rparr>]\<rparr>))"
    by simp
  show ?thesis
    using update_same_count_frame [OF h] by (simp add: coeffs_of_def)
qed

section \<open>Properties of the coefficient interpolation\<close>

lemma coeffs_of_interpolate:
  "coeffs_of (interpolate_section alpha sec o' n) = lerp_coeffs alpha o' n"
  by (simp add: coeffs_of_def interpolate_section_def lerp_coeffs_def)

lemma coeffs_of_snap: "coeffs_of (snap_section sec n) = n"
  by (simp add: coeffs_of_def snap_section_def)

lemma coeffs_of_shift:
  "coeffs_of (sec\<lparr>x2 := u, x1 := v, y2 := w, y1 := y\<rparr>) = coeffs_of sec"
  by (simp add: coeffs_of_def)

lemma interpolate_sections_total:
  assumes "length secs = length os" and "length os = length ns"
  shows "\<exists>secs'. interpolate_sections alpha secs os ns = Some secs' \<and>
           length secs' = length secs \<and>
           map coeffs_of secs' = map2 (lerp_coeffs alpha) os ns"
  using assms
proof (induction secs os ns rule: list_induct3)
  case Nil
  then show ?case by simp
next
  case (Cons sec secs o' os n ns)
  then obtain secs' where "interpolate_sections alpha secs os ns = Some secs'"
    and "length secs' = length secs"
    and "map coeffs_of secs' = map2 (lerp_coeffs alpha) os ns"
    by blast
  then show ?case by (simp add: coeffs_of_interpolate)
qed

lemma snap_sections_total:
  assumes "length secs = length (ns :: Coeffs list)"
  shows "\<exists>secs'. snap_sections secs ns = Some secs' \<and>
           length secs' = length secs \<and> map coeffs_of secs' = ns"
  using assms
proof (induction secs ns rule: list_induct2)
  case Nil
  then show ?case by simp
next
  case (Cons sec secs n ns)
  then obtain secs' where "snap_sections secs ns = Some secs'"
    and "length secs' = length secs" and "map coeffs_of secs' = ns"
    by blast
  then show ?case by (simp add: coeffs_of_snap)
qed

lemma cascade_coeffs:
  "length (fst (cascade secs x)) = length secs \<and>
   map coeffs_of (fst (cascade secs x)) = map coeffs_of secs"
  by (induction secs arbitrary: x) (simp_all add: Let_def coeffs_of_shift)

lemma interpolation_step_mid:
  assumes run: "interp_run st os ns p" and p: "Suc p < 256"
  shows "\<exists>st'. interpolation_step st = Some st' \<and> interp_run st' os ns (Suc p) \<and>
           map coeffs_of (sections st') = map2 (lerp_coeffs (real p / 256)) os ns"
proof -
  from run have len: "length (sections st) = length os" "length os = length ns"
    by (simp_all add: interp_run_def)
  from interpolate_sections_total [OF len, of "real p / 256"]
  obtain secs' where secs': "interpolate_sections (real p / 256) (sections st) os ns = Some secs'"
    "length secs' = length (sections st)"
    "map coeffs_of secs' = map2 (lerp_coeffs (real p / 256)) os ns"
    by blast
  have "interpolation_step st = Some (st\<lparr>sections := secs', interpPos := Suc p\<rparr>)"
    using run p secs'(1)
    by (simp add: interpolation_step_def interp_run_def coeff_array_def Let_def)
  then show ?thesis using run secs'(2,3) by (simp add: interp_run_def)
qed

lemma interpolation_step_last:
  assumes run: "interp_run st os ns 255"
  shows "\<exists>st'. interpolation_step st = Some st' \<and> \<not> interpolating st' \<and>
           map coeffs_of (sections st') = ns \<and> interpPos st' = 256 \<and>
           length (sections st') = length (sections st)"
proof -
  from run have len: "length (sections st) = length os" "length os = length ns"
    by (simp_all add: interp_run_def)
  from interpolate_sections_total [OF len, of "255 / 256"]
  obtain secs' where secs': "interpolate_sections (255 / 256) (sections st) os ns = Some secs'"
    "length secs' = length (sections st)"
    by blast
  then have "length secs' = length ns" using len by simp
  from snap_sections_total [OF this]
  obtain snapped where snapped: "snap_sections secs' ns = Some snapped"
    "length snapped = length secs'" "map coeffs_of snapped = ns"
    by blast
  have "interpolation_step st =
      Some (st\<lparr>sections := snapped, interpPos := 256, interpolating := False\<rparr>)"
    using run secs'(1) snapped(1)
    by (simp add: interpolation_step_def interp_run_def coeff_array_def Let_def)
  then show ?thesis using snapped(2,3) secs'(2) by simp
qed

lemma process_sample_mid:
  assumes run: "interp_run st os ns p" and p: "Suc p < 256"
  shows "\<exists>st' y. process_sample st x = Some (st', y) \<and> interp_run st' os ns (Suc p)"
proof -
  from interpolation_step_mid [OF run p]
  obtain st1 where st1: "interpolation_step st = Some st1" "interp_run st1 os ns (Suc p)"
    by blast
  then show ?thesis
    using cascade_coeffs [of "sections st1" x]
    by (simp add: process_sample_def Let_def interp_run_def)
qed

lemma process_samples_mid:
  assumes "interp_run st os ns p" and "p + length xs < 256"
  shows "\<exists>st' ys. process_samples st xs = Some (st', ys) \<and> interp_run st' os ns (p + length xs)"
  using assms
proof (induction xs arbitrary: st p)
  case Nil
  then show ?case by simp
next
  case (Cons x xs)
  from Cons.prems(2) have "Suc p < 256" by simp
  from process_sample_mid [OF Cons.prems(1) this, of x]
  obtain st1 y where st1: "process_sample st x = Some (st1, y)" "interp_run st1 os ns (Suc p)"
    by blast
  from Cons.prems(2) have "Suc p + length xs < 256" by simp
  from Cons.IH [OF st1(2) this]
  obtain st2 ys where "process_samples st1 xs = Some (st2, ys)"
    "interp_run st2 os ns (Suc p + length xs)"
    by blast
  then show ?case using st1(1) by simp
qed

lemma update_starts_run:
  assumes "length msg = length (sections st)" and "interpFrames st = 256"
  shows "interp_run (updateCoefficients st msg) (map coeffs_of (sections st))
           (map incoming_coeffs msg) 0"
  using assms by (simp add: updateCoefficients_def Let_def interp_run_def)

lemma applied_coeffs_mid:
  assumes "interp_run st os ns p" and "Suc p < 256"
  shows "applied_coeffs st = Some (map2 (lerp_coeffs (real p / 256)) os ns)"
  using interpolation_step_mid [OF assms] by (auto simp: applied_coeffs_def)

lemma applied_coeffs_last:
  assumes "interp_run st os ns 255"
  shows "applied_coeffs st = Some ns"
  using interpolation_step_last [OF assms] by (auto simp: applied_coeffs_def)

lemma process_sample_last:
  assumes run: "interp_run st os ns 255"
  shows "\<exists>st' y. process_sample st x = Some (st', y) \<and> \<not> interpolating st' \<and>
           map coeffs_of (sections st') = ns"
proof -
  from interpolation_step_last [OF run]
  obtain st1 where st1: "interpolation_step st = Some st1" "\<not> interpolating st1"
    "map coeffs_of (sections st1) = ns"
    by blast
  then show ?thesis
    using cascade_coeffs [of "sections st1" x]
    by (simp add: process_sample_def Let_def)
qed

lemma process_samples_snoc:
  assumes "process_samples st xs = Some (st1, ys)" and "process_sample st1 x = Some (st2, y)"
  shows "process_samples st (xs @ [x]) = Some (st2, ys @ [y])"
  using assms
proof (induction xs arbitrary: st ys)
  case Nil
  then show ?case by simp
next
  case (Cons x' xs)
  then show ?case by (auto split: option.splits prod.splits)
qed

lemma process_samples_window:
  assumes run: "interp_run st os ns 0" and len: "length xs = 256"
  shows "\<exists>st' ys. process_samples st xs = Some (st', ys) \<and> \<not> interpolating st' \<and>
           map coeffs_of (sections st') = ns"
proof -
  from len have ne: "xs \<noteq> []" by auto
  then have xs: "xs = butlast xs @ [last xs]" by simp
  from len have "0 + length (butlast xs) < 256" and l255: "0 + length (butlast xs) = 255"
    by simp_all
  from process_samples_mid [OF run this(1)] l255
  obtain st1 ys where st1: "process_samples st (butlast xs) = Some (st1, ys)"
    "interp_run st1 os ns 255"
    by auto
  from process_sample_last [OF st1(2), of "last xs"]
  obtain st2 y where st2: "process_sample st1 (last xs) = Some (st2, y)"
    "\<not> interpolating st2" "map coeffs_of (sections st2) = ns"
    by blast
  from process_samples_snoc [OF st1(1) st2(1)] xs
  have "process_samples st xs = Some (st2, ys @ [y])" by simp
  with st2(2,3) show ?thesis by blast
qed

lemma applied_coeffs_first:
  assumes "interp_run st os ns 0"
  shows "applied_coeffs st = Some os"
proof -
  from assms have "length os = length ns" by (simp add: interp_run_def)
  then have "map2 (lerp_coeffs 0) os ns = os"
    by (induction os ns rule: list_induct2) (simp_all add: lerp_coeffs_def)
  with applied_coeffs_mid [OF assms] show ?thesis by simp
qed

lemma ramp_start_run:
  "interp_run ramp_start [incoming_coeffs old_msg] [incoming_coeffs new_msg] 0"
proof -
  have "length [new_msg] = length (sections (updateCoefficients constructor [old_msg]))"
    and "interpFrames (updateCoefficients constructor [old_msg]) = 256"
    by (simp_all add: updateCoefficients_def constructor_def)
  from update_starts_run [OF this] show ?thesis
    by (simp add: ramp_start_def updateCoefficients_def constructor_def coeffs_of_def
        fresh_section_def incoming_coeffs_def)
qed

text \<open>
  Claim C2: after an update with an unchanged section count, sample \<open>t\<close> of the window,
  \<open>0 \<le> t < 256\<close>, is claimed to be filtered with \<open>O + (t/256) * (T - O)\<close>. The code does
  so for \<open>t < 255\<close> (\<open>applied_coeffs_mid\<close>, \<open>applied_coeffs_first\<close>), and after 256 samples
  the coefficients are \<open>T\<close> and the transition is over (\<open>process_samples_window\<close>); but
  at \<open>t = 255\<close> the snap to \<open>T\<close> runs in the same loop pass, before the sample is
  filtered (\<open>applied_coeffs_last\<close>). Here a
  one-section processor goes from \<open>b0 = 0\<close> to \<open>b0 = 256\<close>: after 255 samples the next
  sample is filtered with \<open>b0 = 256\<close>, where the claimed blend is \<open>b0 = 255\<close>.
\<close>

theorem last_ramp_sample_uses_target:
  "Option.bind (process_samples ramp_start (replicate 255 0)) (\<lambda>r. applied_coeffs (fst r))
     = Some [\<lparr>b0 = 256, b1 = 0, b2 = 0, a1 = 0, a2 = 0\<rparr>] \<and>
   lerp_coeffs (255 / 256) (incoming_coeffs old_msg) (incoming_coeffs new_msg)
     = \<lparr>b0 = 255, b1 = 0, b2 = 0, a1 = 0, a2 = 0\<rparr>"
proof -
  have "0 + length (replicate 255 (0::real)) < 256" by simp
  from process_samples_mid [OF ramp_start_run this]
  obtain st ys where st: "process_samples ramp_start (replicate 255 0) = Some (st, ys)"
    "interp_run st [incoming_coeffs old_msg] [incoming_coeffs new_msg] 255"
    by auto
  from applied_coeffs_last [OF st(2)]
  have "applied_coeffs st = Some [incoming_coeffs new_msg]" .
  then show ?thesis
    by (simp add: st(1) incoming_coeffs_def new_msg_def old_msg_def lerp_coeffs_def)
qed

end
